theory Spec2Isabelle
  imports Main "HOL-Library.Sublist"
begin

section \<open>Text as Python sees it\<close>

text \<open>
  A Python \<^verbatim>\<open>str\<close> is a sequence of Unicode code points. The record lines of the
  forum are Cyrillic, so a character is modelled by its code point and a string by the
  list of its code points. ASCII literals of the source are written through \<open>ascii\<close>.
\<close>

type_synonym uchar = nat
type_synonym ustring = "uchar list"

definition ascii :: "string \<Rightarrow> ustring" where
  "ascii s = map of_char s"

text \<open>
  \<^verbatim>\<open>str.isspace\<close>, which is also what \<^verbatim>\<open>str.strip()\<close>, \<^verbatim>\<open>str.split()\<close> and the
  regular expression class \<^verbatim>\<open>\s\<close> use on \<^verbatim>\<open>str\<close> patterns.
\<close>

definition is_space :: "uchar \<Rightarrow> bool" where
  "is_space c = ((9 \<le> c \<and> c \<le> 13) \<or> (28 \<le> c \<and> c \<le> 32) \<or> c = 133 \<or> c = 160
     \<or> c = 5760 \<or> (8192 \<le> c \<and> c \<le> 8202) \<or> c = 8232 \<or> c = 8233 \<or> c = 8239
     \<or> c = 8287 \<or> c = 12288)"

text \<open>
  The regular expression class \<^verbatim>\<open>\d\<close> on a \<^verbatim>\<open>str\<close> pattern: the Unicode decimal
  digits (category Nd). They come in runs of ten; \<open>decimal_zeros\<close> lists the code point
  of the zero of every run (Unicode 14.0, the table of CPython 3.11).
\<close>

definition decimal_zeros :: "uchar list" where
  "decimal_zeros = [48, 1632, 1776, 1984, 2406, 2534, 2662, 2790, 2918, 3046, 3174, 3302,
     3430, 3558, 3664, 3792, 3872, 4160, 4240, 6112, 6160, 6470, 6608, 6784, 6800, 6992,
     7088, 7232, 7248, 42528, 43216, 43264, 43472, 43504, 43600, 44016, 65296, 66720,
     68912, 69734, 69872, 69942, 70096, 70384, 70736, 70864, 71248, 71360, 71472, 71904,
     72016, 72784, 73040, 73120, 92768, 92864, 93008, 120782, 120792, 120802, 120812,
     120822, 123200, 123632, 125264, 130032]"

definition is_digit :: "uchar \<Rightarrow> bool" where
  "is_digit c = list_ex (\<lambda>z. z \<le> c \<and> c < z + 10) decimal_zeros"

text \<open>The line boundaries of \<^verbatim>\<open>str.splitlines()\<close>.\<close>

definition is_linebreak :: "uchar \<Rightarrow> bool" where
  "is_linebreak c = ((10 \<le> c \<and> c \<le> 13) \<or> (28 \<le> c \<and> c \<le> 30) \<or> c = 133
     \<or> c = 8232 \<or> c = 8233)"

text \<open>\<^verbatim>\<open>s.strip()\<close>: whitespace removed at both ends.\<close>

definition lstrip :: "ustring \<Rightarrow> ustring" where
  "lstrip s = dropWhile is_space s"

definition rstrip :: "ustring \<Rightarrow> ustring" where
  "rstrip s = rev (dropWhile is_space (rev s))"

definition strip :: "ustring \<Rightarrow> ustring" where
  "strip s = rstrip (lstrip s)"

text \<open>
  \<^verbatim>\<open>s.split()\<close> without a separator: the maximal runs of non-whitespace characters,
  in order. The first argument is the word being read, reversed.
\<close>

fun split_ws_from :: "ustring \<Rightarrow> ustring \<Rightarrow> ustring list" where
  "split_ws_from w [] = (if w = [] then [] else [rev w])"
| "split_ws_from w (c # cs) =
     (if is_space c
      then (if w = [] then split_ws_from [] cs else rev w # split_ws_from [] cs)
      else split_ws_from (c # w) cs)"

definition split_ws :: "ustring \<Rightarrow> ustring list" where
  "split_ws s = split_ws_from [] s"

text \<open>\<^verbatim>\<open>sep.join(parts)\<close>.\<close>

fun join :: "ustring \<Rightarrow> ustring list \<Rightarrow> ustring" where
  "join sep [] = []"
| "join sep [x] = x"
| "join sep (x # y # ys) = x @ sep @ join sep (y # ys)"

text \<open>
  \<^verbatim>\<open>s.split(sep)\<close> with a separator: the pieces between the non-overlapping
  occurrences of \<open>sep\<close>, found from the left. Python raises \<^verbatim>\<open>ValueError\<close> on an empty
  separator; the only separator of the program is the non-empty literal \<open>marker\<close>, and
  on an empty separator the model returns the text unsplit.
\<close>

function split_from :: "ustring \<Rightarrow> ustring \<Rightarrow> ustring \<Rightarrow> ustring list" where
  "split_from sep acc s =
     (if s = [] then [rev acc]
      else if sep \<noteq> [] \<and> prefix sep s then rev acc # split_from sep [] (drop (length sep) s)
      else split_from sep (hd s # acc) (tl s))"
  by pat_completeness auto
termination
  by (relation "measure (\<lambda>(sep, acc, s). length s)") auto

declare split_from.simps [simp del]

definition split_on :: "ustring \<Rightarrow> ustring \<Rightarrow> ustring list" where
  "split_on sep s = split_from sep [] s"

text \<open>\<^verbatim>\<open>sub in s\<close>: \<open>sub\<close> occurs in \<open>s\<close> as a contiguous substring.\<close>

fun contains :: "ustring \<Rightarrow> ustring \<Rightarrow> bool" where
  "contains sub [] = (sub = [])"
| "contains sub (c # cs) = (prefix sub (c # cs) \<or> contains sub cs)"

text \<open>
  \<^verbatim>\<open>s.splitlines()\<close>: the lines of \<open>s\<close> without their line boundaries; \<^verbatim>\<open>\r\n\<close> is
  one boundary, and a boundary at the very end opens no further line. The first argument
  is the line being read, reversed.
\<close>

fun splitlines_from :: "ustring \<Rightarrow> ustring \<Rightarrow> ustring list" where
  "splitlines_from acc [] = (if acc = [] then [] else [rev acc])"
| "splitlines_from acc [c] = (if is_linebreak c then [rev acc] else [rev (c # acc)])"
| "splitlines_from acc (c # d # cs) =
     (if c = 13 \<and> d = 10 then rev acc # splitlines_from [] cs
      else if is_linebreak c then rev acc # splitlines_from [] (d # cs)
      else splitlines_from (c # acc) (d # cs))"

definition splitlines :: "ustring \<Rightarrow> ustring list" where
  "splitlines s = splitlines_from [] s"

section \<open>The record tokenizer: \<^verbatim>\<open>parse_line\<close>\<close>

text \<open>
  \<^verbatim>\<open>DATE_PATTERN = re.compile(r"\d{2}\.\d{2}\.\d{2,4}")\<close>.
  \<open>date_match_at s\<close> is the length of the match of the pattern at the start of \<open>s\<close>,
  if there is one: two digits, a dot, two digits, a dot, two digits, and then, the
  quantifier being greedy, as many further digits as follow, at most two.
\<close>

definition date_match_at :: "ustring \<Rightarrow> nat option" where
  "date_match_at s =
     (case s of
        d1 # d2 # p1 # d3 # d4 # p2 # d5 # d6 # rest \<Rightarrow>
          if is_digit d1 \<and> is_digit d2 \<and> p1 = 46 \<and> is_digit d3 \<and> is_digit d4 \<and> p2 = 46
             \<and> is_digit d5 \<and> is_digit d6
          then Some (8 + length (takeWhile is_digit (take 2 rest)))
          else None
      | _ \<Rightarrow> None)"

text \<open>
  \<^verbatim>\<open>DATE_PATTERN.search(line)\<close>: the match at the leftmost position that has one, as the
  pair (\<^verbatim>\<open>m.start()\<close>, \<^verbatim>\<open>m.end()\<close>). The first argument is the position of \<open>s\<close> in
  the line.
\<close>

fun date_search_from :: "nat \<Rightarrow> ustring \<Rightarrow> (nat \<times> nat) option" where
  "date_search_from i [] = None"
| "date_search_from i (c # cs) =
     (case date_match_at (c # cs) of
        Some n \<Rightarrow> Some (i, i + n)
      | None \<Rightarrow> date_search_from (Suc i) cs)"

definition date_search :: "ustring \<Rightarrow> (nat \<times> nat) option" where
  "date_search line = date_search_from 0 line"

text \<open>
  The three alternatives of the group of the gender pattern, each a doubled Cyrillic small
  letter: de (U+0434), em (U+043C), zhe (U+0436).
\<close>

definition gender_codes :: "ustring list" where
  "gender_codes = [[1076, 1076], [1084, 1084], [1078, 1078]]"

text \<open>
  \<^verbatim>\<open>re.search(r"\s+(G)\s*$", before_date)\<close>, where \<open>G\<close> stands for the alternation of
  the three gender codes.
  \<open>gender_match_at s\<close> is group 1 of the match of the pattern at the start of \<open>s\<close>, if
  there is one. \<^verbatim>\<open>\s+\<close> takes the whole run of whitespace (giving characters back
  leaves a whitespace character where a code must start), one of the codes follows, and
  \<^verbatim>\<open>\s*$\<close> needs everything after the code to be whitespace (\<^verbatim>\<open>$\<close> before a final
  newline is covered: the newline is whitespace).
\<close>

definition gender_match_at :: "ustring \<Rightarrow> ustring option" where
  "gender_match_at s =
     (let ws = takeWhile is_space s; rest = dropWhile is_space s
      in if ws \<noteq> [] \<and> take 2 rest \<in> set gender_codes \<and> list_all is_space (drop 2 rest)
         then Some (take 2 rest) else None)"

text \<open>
  The search tries the positions from the left; the result is the pair
  (\<^verbatim>\<open>gender_match.start()\<close>, \<^verbatim>\<open>gender_match.group(1)\<close>).
\<close>

fun gender_search_from :: "nat \<Rightarrow> ustring \<Rightarrow> (nat \<times> ustring) option" where
  "gender_search_from i [] = None"
| "gender_search_from i (c # cs) =
     (case gender_match_at (c # cs) of
        Some g \<Rightarrow> Some (i, g)
      | None \<Rightarrow> gender_search_from (Suc i) cs)"

definition gender_search :: "ustring \<Rightarrow> (nat \<times> ustring) option" where
  "gender_search s = gender_search_from 0 s"

text \<open>
  The gender step of \<^verbatim>\<open>parse_line\<close>: the new values of \<^verbatim>\<open>gender\<close> and
  \<^verbatim>\<open>before_date\<close>. On a match the code is group 1 and the name text is
  \<^verbatim>\<open>before_date[:gender_match.start()].strip()\<close>; without a match \<^verbatim>\<open>gender\<close> stays
  empty and \<^verbatim>\<open>before_date\<close> is unchanged.
\<close>

definition extract_gender :: "ustring \<Rightarrow> ustring \<times> ustring" where
  "extract_gender before_date =
     (case gender_search before_date of
        Some (gs, g) \<Rightarrow> (g, strip (take gs before_date))
      | None \<Rightarrow> ([], before_date))"

text \<open>
  A record is a Python \<^verbatim>\<open>dict\<close> from field names to strings, kept as the list of its
  items in insertion order; \<open>field d k\<close> is \<^verbatim>\<open>d.get(k)\<close>.
\<close>

type_synonym record_dict = "(string \<times> ustring) list"

definition field :: "record_dict \<Rightarrow> string \<Rightarrow> ustring option" where
  "field d k = map_of d k"

text \<open>
  \<^verbatim>\<open>parse_line(line)\<close>. \<open>None\<close> is Python's \<^verbatim>\<open>None\<close>. No operation of the body can
  raise: every index into \<^verbatim>\<open>parts\<close> is guarded by a length test, and slices never
  raise.
\<close>

definition parse_line :: "ustring \<Rightarrow> record_dict option" where
  "parse_line line =
     (case date_search line of
        None \<Rightarrow>
          if length line < 3 then None
          else Some [(''raw'', line), (''last_name'', []), (''first_name'', []),
                     (''patronymic'', []), (''date_birth'', []), (''place'', [])]
      | Some (s, e) \<Rightarrow>
          let date_str = take (e - s) (drop s line);
              before_date = strip (take s line);
              after_date = strip (drop e line);
              (gender, before_date) = extract_gender before_date;
              parts = split_ws before_date;
              last_name = (if length parts > 0 then parts ! 0 else []);
              first_name = (if length parts > 1 then parts ! 1 else []);
              patronymic = (if length parts > 2 then parts ! 2 else []);
              extra = (if length parts > 3 then join [32] (drop 3 parts) else [])
          in Some [(''last_name'', last_name), (''first_name'', first_name),
                   (''patronymic'', patronymic), (''extra'', extra), (''gender'', gender),
                   (''date_birth'', date_str), (''place'', after_date), (''raw'', line)])"

section \<open>The block segmenter: \<^verbatim>\<open>parse_records\<close>\<close>

definition marker :: ustring where
  "marker = ascii ''USER_LAST_NAME USER_NAME USER_TITLE DATE_B NAME_SITE''"

text \<open>
  The test that ends a block:
  \<^verbatim>\<open>"alexalex1804" in line or "##" in line or "VGD.ru" in line\<close>.
\<close>

definition is_terminator :: "ustring \<Rightarrow> bool" where
  "is_terminator line =
     (contains (ascii ''alexalex1804'') line \<or> contains (ascii ''##'') line
      \<or> contains (ascii ''VGD.ru'') line)"

text \<open>
  The inner loop over the lines of one part, with the list \<^verbatim>\<open>records\<close> passed
  through: \<^verbatim>\<open>continue\<close> on an empty line, \<^verbatim>\<open>break\<close> on a terminator, and otherwise
  \<^verbatim>\<open>records.append(parse_line(line))\<close>.
\<close>

fun scan_lines :: "ustring list \<Rightarrow> record_dict option list \<Rightarrow> record_dict option list" where
  "scan_lines [] records = records"
| "scan_lines (l # ls) records =
     (let line = strip l
      in if line = [] then scan_lines ls records
         else if is_terminator line then records
         else scan_lines ls (records @ [parse_line line]))"

text \<open>The outer loop, over \<^verbatim>\<open>parts[1:]\<close>.\<close>

fun scan_parts :: "ustring list \<Rightarrow> record_dict option list \<Rightarrow> record_dict option list" where
  "scan_parts [] records = records"
| "scan_parts (part # ps) records =
     scan_parts ps (scan_lines (splitlines (strip part)) records)"

text \<open>
  The truth value of an element of \<^verbatim>\<open>records\<close> in \<^verbatim>\<open>[r for r in records if r]\<close>:
  \<^verbatim>\<open>None\<close> and the empty dict are false.
\<close>

fun truthy :: "record_dict option \<Rightarrow> bool" where
  "truthy None = False"
| "truthy (Some d) = (d \<noteq> [])"

text \<open>
  \<^verbatim>\<open>parse_records(html)\<close>. The flattening of the page to text,
  \<^verbatim>\<open>BeautifulSoup(html, "html.parser").get_text("\n")\<close>, is the work of a library
  outside the repository and is the parameter \<open>get_text\<close>.
\<close>

definition parse_records :: "(ustring \<Rightarrow> ustring) \<Rightarrow> ustring \<Rightarrow> record_dict list" where
  "parse_records get_text html =
     (let all_text = get_text html;
          parts = split_on marker all_text;
          records = scan_parts (drop 1 parts) []
      in map the (filter truthy records))"

section \<open>Notions of the specification\<close>

text \<open>
  A date as the specification words it: exactly two digits, a dot, two digits, a dot,
  then either two or four digits.
\<close>

definition is_date_text :: "ustring \<Rightarrow> bool" where
  "is_date_text d =
     ((length d = 8 \<or> length d = 10) \<and> list_all is_digit (take 2 d) \<and> take 1 (drop 2 d) = [46]
      \<and> list_all is_digit (take 2 (drop 3 d)) \<and> take 1 (drop 5 d) = [46]
      \<and> list_all is_digit (drop 6 d))"

text \<open>
  The segmenter as the specification words it. The lines of a block: split the segment
  into lines, trim each line, discard the empty ones, and stop before the first line that
  matches a terminator. The candidate lines of a document: split the text at every
  occurrence of the marker, discard the piece before the first occurrence, and concatenate
  the lines of the remaining blocks in order.
\<close>

definition block_lines :: "ustring \<Rightarrow> ustring list" where
  "block_lines part =
     takeWhile (\<lambda>l. \<not> is_terminator l) (filter (\<lambda>l. l \<noteq> []) (map strip (splitlines part)))"

definition segment :: "ustring \<Rightarrow> ustring list" where
  "segment text = concat (map block_lines (drop 1 (split_on marker text)))"

text \<open>
  Splitting on whitespace, as a relation between a text and its tokens: the text is
  whitespace, then the first token, which is not empty, contains no whitespace and is
  followed by whitespace or by the end of the text, and the rest of the text splits into
  the remaining tokens; when no token is left, only whitespace is.
\<close>

fun is_token_split :: "ustring \<Rightarrow> ustring list \<Rightarrow> bool" where
  "is_token_split src [] = list_all is_space src"
| "is_token_split src (t # ts) =
     (let body = dropWhile is_space src; rest = drop (length t) body
      in t \<noteq> [] \<and> list_all (\<lambda>c. \<not> is_space c) t \<and> prefix t body
         \<and> (rest = [] \<or> is_space (hd rest)) \<and> is_token_split rest ts)"

section \<open>Properties of the tokenizer\<close>

subsection \<open>The date search\<close>

lemma date_match_at_eq:
  "date_match_at s =
     (if 8 \<le> length s \<and> is_digit (s ! 0) \<and> is_digit (s ! 1) \<and> s ! 2 = 46 \<and> is_digit (s ! 3)
         \<and> is_digit (s ! 4) \<and> s ! 5 = 46 \<and> is_digit (s ! 6) \<and> is_digit (s ! 7)
      then Some (8 + length (takeWhile is_digit (take 2 (drop 8 s)))) else None)"
proof -
  consider "length s < 8" | "8 \<le> length s" by linarith
  then show ?thesis
  proof cases
    case 1
    then show ?thesis
      by (auto simp: date_match_at_def split: list.splits)
  next
    case 2
    then obtain d1 d2 p1 d3 d4 p2 d5 d6 rest where s: "s = d1 # d2 # p1 # d3 # d4 # p2 # d5 # d6 # rest"
      by (auto simp: numeral_eq_Suc Suc_le_length_iff)
    show ?thesis unfolding s by (simp add: date_match_at_def)
  qed
qed

lemma date_match_at_Nil: "date_match_at [] = None"
  by (simp add: date_match_at_def)

lemma date_search_from_None:
  "date_search_from i s = None \<longleftrightarrow> (\<forall>k. date_match_at (drop k s) = None)"
proof (induction s arbitrary: i)
  case Nil
  then show ?case by (simp add: date_match_at_Nil)
next
  case (Cons c cs)
  have "(\<forall>k. date_match_at (drop k (c # cs)) = None)
      \<longleftrightarrow> date_match_at (c # cs) = None \<and> (\<forall>k. date_match_at (drop k cs) = None)"
  proof
    assume h: "\<forall>k. date_match_at (drop k (c # cs)) = None"
    from h [rule_format, of 0] have "date_match_at (c # cs) = None" by simp
    moreover have "date_match_at (drop k cs) = None" for k
      using h [rule_format, of "Suc k"] by simp
    ultimately show "date_match_at (c # cs) = None \<and> (\<forall>k. date_match_at (drop k cs) = None)"
      by simp
  next
    assume h: "date_match_at (c # cs) = None \<and> (\<forall>k. date_match_at (drop k cs) = None)"
    show "\<forall>k. date_match_at (drop k (c # cs)) = None"
    proof
      fix k show "date_match_at (drop k (c # cs)) = None"
        using h by (cases k) simp_all
    qed
  qed
  with Cons show ?case by (auto split: option.splits)
qed

lemma date_search_from_Some:
  "date_search_from i s = Some (a, b) \<Longrightarrow>
     i \<le> a \<and> a - i < length s \<and> date_match_at (drop (a - i) s) = Some (b - a)
     \<and> (\<forall>k < a - i. date_match_at (drop k s) = None)"
proof (induction s arbitrary: i)
  case Nil
  then show ?case by simp
next
  case (Cons c cs)
  show ?case
  proof (cases "date_match_at (c # cs)")
    case None
    with Cons.prems have rec: "date_search_from (Suc i) cs = Some (a, b)" by simp
    from Cons.IH [OF rec] have ih: "Suc i \<le> a" "a - Suc i < length cs"
      "date_match_at (drop (a - Suc i) cs) = Some (b - a)"
      "\<forall>k < a - Suc i. date_match_at (drop k cs) = None" by auto
    from ih(1) have eq: "a - i = Suc (a - Suc i)" by simp
    have "\<forall>k < a - i. date_match_at (drop k (c # cs)) = None"
      using None ih(4) eq by (auto simp: drop_Cons split: nat.splits)
    with ih eq show ?thesis by simp
  next
    case (Some n)
    with Cons.prems show ?thesis by auto
  qed
qed


lemma is_date_text_prefix:
  assumes "is_date_text d"
  shows "date_match_at (d @ rest) \<noteq> None"
proof -
  from assms have "8 \<le> length d" by (auto simp: is_date_text_def)
  then obtain d1 d2 p1 d3 d4 p2 d5 d6 t where d: "d = d1 # d2 # p1 # d3 # d4 # p2 # d5 # d6 # t"
    by (auto simp: numeral_eq_Suc Suc_le_length_iff)
  from assms show ?thesis unfolding d by (auto simp: is_date_text_def date_match_at_def)
qed

lemma date_match_at_take8:
  assumes "date_match_at s = Some n"
  shows "is_date_text (take 8 s)"
proof -
  from assms have "8 \<le> length s" by (simp add: date_match_at_eq split: if_splits)
  then obtain d1 d2 p1 d3 d4 p2 d5 d6 t where s: "s = d1 # d2 # p1 # d3 # d4 # p2 # d5 # d6 # t"
    by (auto simp: numeral_eq_Suc Suc_le_length_iff)
  from assms show ?thesis unfolding s by (auto simp: is_date_text_def date_match_at_def split: if_splits)
qed

lemma date_search_None_iff:
  "date_search line = None \<longleftrightarrow> \<not> (\<exists>pre d post. line = pre @ d @ post \<and> is_date_text d)"
proof
  assume n: "date_search line = None"
  show "\<not> (\<exists>pre d post. line = pre @ d @ post \<and> is_date_text d)"
  proof
    assume "\<exists>pre d post. line = pre @ d @ post \<and> is_date_text d"
    then obtain pre d post where l: "line = pre @ d @ post" and d: "is_date_text d" by blast
    from n have "date_match_at (drop (length pre) line) = None"
      by (simp add: date_search_def date_search_from_None)
    with l have "date_match_at (d @ post) = None" by simp
    with is_date_text_prefix [OF d] show False by blast
  qed
next
  assume h: "\<not> (\<exists>pre d post. line = pre @ d @ post \<and> is_date_text d)"
  have "date_match_at (drop k line) = None" for k
  proof (rule ccontr)
    assume "date_match_at (drop k line) \<noteq> None"
    then obtain n where "date_match_at (drop k line) = Some n" by blast
    then have "is_date_text (take 8 (drop k line))" by (rule date_match_at_take8)
    moreover have "line = take k line @ take 8 (drop k line) @ drop 8 (drop k line)"
      by (simp only: append_take_drop_id)
    ultimately show False using h by blast
  qed
  then show "date_search line = None" by (simp add: date_search_def date_search_from_None)
qed

subsection \<open>When a line yields a record\<close>



subsection \<open>Idempotence\<close>

lemma parse_line_raw: "parse_line line = Some r \<Longrightarrow> field r ''raw'' = Some line"
  by (auto simp: parse_line_def field_def Let_def split: option.splits prod.splits if_splits)

text \<open>
  Claim C8. Whenever \<open>parse_line\<close> emits a record, the record carries a \<open>raw\<close> field, and
  \<open>parse_line\<close> applied to that field emits the same record, field by field.
\<close>

theorem parse_line_idempotent:
  "parse_line line = Some r \<Longrightarrow> \<exists>raw. field r ''raw'' = Some raw \<and> parse_line raw = Some r"
  by (simp add: parse_line_raw)

theorem parse_line_idempotent_witness:
  "\<exists>r raw. parse_line (ascii ''abc'') = Some r \<and> field r ''raw'' = Some raw \<and> parse_line raw = Some r"
proof -
  have h: "parse_line (ascii ''abc'') = Some [(''raw'', [97, 98, 99]), (''last_name'', []),
      (''first_name'', []), (''patronymic'', []), (''date_birth'', []), (''place'', [])]"
    by (simp add: parse_line_def ascii_def date_search_def date_match_at_def)
  from parse_line_idempotent [OF h] h show ?thesis by blast
qed

subsection \<open>Evaluating the model on concrete lines\<close>

lemma is_digit_ascii: "48 \<le> c \<Longrightarrow> c < 58 \<Longrightarrow> is_digit c"
  by (simp add: is_digit_def decimal_zeros_def)

lemma not_is_digit_low: "c < 48 \<Longrightarrow> \<not> is_digit c"
  by (simp add: is_digit_def decimal_zeros_def)

lemma not_is_digit_mid: "58 \<le> c \<Longrightarrow> c < 1632 \<Longrightarrow> \<not> is_digit c"
  by (simp add: is_digit_def decimal_zeros_def)

lemmas eval_defs = ascii_def date_search_def date_match_at_def is_digit_ascii not_is_digit_low
  not_is_digit_mid is_space_def strip_def lstrip_def rstrip_def extract_gender_def
  gender_search_def gender_match_at_def gender_codes_def split_ws_def field_def Let_def

subsection \<open>Stripping\<close>

lemma rstrip_Nil: "rstrip [] = []"
  by (simp add: rstrip_def)

lemma rstrip_Cons:
  "rstrip (c # xs) = (if list_all is_space (c # xs) then [] else c # rstrip xs)"
  by (auto simp: rstrip_def dropWhile_append list_all_iff)

lemma rstrip_all_space: "list_all is_space xs \<Longrightarrow> rstrip xs = []"
  by (simp add: rstrip_def list_all_iff)

lemma rstrip_append_space: "list_all is_space ws \<Longrightarrow> rstrip (xs @ ws) = rstrip xs"
  by (simp add: rstrip_def list_all_iff dropWhile_append)

lemma rstrip_prefix: "take (length (rstrip xs)) (xs @ ys) = rstrip xs"
proof (induction xs)
  case Nil
  then show ?case by (simp add: rstrip_Nil)
next
  case (Cons c xs)
  then show ?case by (simp add: rstrip_Cons)
qed

lemma lstrip_rstrip: "lstrip (rstrip xs) = rstrip (lstrip xs)"
proof (induction xs)
  case Nil
  then show ?case by (simp add: lstrip_def rstrip_Nil)
next
  case (Cons c xs)
  show ?case
  proof (cases "is_space c")
    case True
    show ?thesis
    proof (cases "list_all is_space xs")
      case all: True
      have d: "dropWhile is_space xs = []" using all by (simp add: list_all_iff)
      show ?thesis using True all by (simp add: rstrip_Cons rstrip_Nil lstrip_def d)
    next
      case False
      with True Cons show ?thesis by (simp add: rstrip_Cons lstrip_def)
    qed
  next
    case False
    then show ?thesis by (simp add: rstrip_Cons lstrip_def)
  qed
qed

lemma rstrip_idem: "rstrip (rstrip xs) = rstrip xs"
proof (induction xs)
  case Nil
  then show ?case by (simp add: rstrip_Nil)
next
  case (Cons c xs)
  show ?case
  proof (cases "list_all is_space (c # xs)")
    case True
    then show ?thesis by (simp add: rstrip_Cons rstrip_Nil)
  next
    case False
    have "\<not> list_all is_space (c # rstrip xs)"
    proof (cases "is_space c")
      case True
      with False have n: "\<not> list_all is_space xs" by simp
      have "\<not> list_all is_space (rstrip xs)"
      proof
        assume "list_all is_space (rstrip xs)"
        then have "rstrip (rstrip xs) = []" by (rule rstrip_all_space)
        with Cons have r: "rstrip xs = []" by simp
        from n obtain x where "x \<in> set xs" "\<not> is_space x" by (auto simp: list_all_iff)
        then have "dropWhile is_space (rev xs) \<noteq> []" by auto
        with r show False by (simp add: rstrip_def)
      qed
      then show ?thesis by simp
    next
      case False
      then show ?thesis by simp
    qed
    with False Cons show ?thesis by (simp add: rstrip_Cons rstrip_Nil)
  qed
qed

lemma strip_rstrip: "strip (rstrip xs) = strip xs"
  by (simp add: strip_def lstrip_rstrip rstrip_idem)

lemma rstrip_no_trailing: "xs \<noteq> [] \<Longrightarrow> \<not> is_space (last xs) \<Longrightarrow> rstrip xs = xs"
  by (cases xs rule: rev_cases) (simp_all add: rstrip_def)

lemma lstrip_take: "lstrip line = line \<Longrightarrow> lstrip (take n line) = take n line"
  unfolding lstrip_def dropWhile_eq_self_iff by (cases line; cases n) auto

lemma rstrip_decomp: "\<exists>ws. s = rstrip s @ ws \<and> list_all is_space ws"
proof -
  have "rev s = takeWhile is_space (rev s) @ dropWhile is_space (rev s)" by simp
  then have "s = rev (dropWhile is_space (rev s)) @ rev (takeWhile is_space (rev s))"
    by (metis rev_append rev_rev_ident)
  moreover have "list_all is_space (rev (takeWhile is_space (rev s)))"
    by (simp add: list_all_iff) (meson set_takeWhileD)
  ultimately show ?thesis unfolding rstrip_def by blast
qed

lemma strip_no_trailing_space:
  assumes "strip x = ys @ ws2" "list_all is_space ws2"
  shows "ws2 = []"
proof (rule ccontr)
  assume ne: "ws2 \<noteq> []"
  let ?d = "dropWhile is_space (rev (lstrip x))"
  from assms(1) have r: "?d = rev ws2 @ rev ys"
    by (simp add: strip_def rstrip_def rev_swap)
  with ne have dne: "?d \<noteq> []" by simp
  from r ne have "hd ?d = last ws2" by (simp add: hd_append hd_rev)
  moreover from dne have "\<not> is_space (hd ?d)" by (rule hd_dropWhile)
  moreover from assms(2) ne have "is_space (last ws2)" by (simp add: list_all_iff)
  ultimately show False by simp
qed

subsection \<open>The gender pattern\<close>

lemma gender_code_shape:
  assumes "g \<in> set gender_codes"
  shows "\<exists>a. g = [a, a] \<and> \<not> is_space a"
  using assms by (auto simp: gender_codes_def is_space_def)

lemma gender_match_at_code:
  assumes "ws \<noteq> []" "list_all is_space ws" "g \<in> set gender_codes" "list_all is_space ws2"
  shows "gender_match_at (ws @ g @ ws2) = Some g"
proof -
  from gender_code_shape [OF assms(3)] obtain a where g: "g = [a, a]" and a: "\<not> is_space a"
    by blast
  from assms(2) a have tw: "takeWhile is_space (ws @ g @ ws2) = ws"
    by (simp add: g list_all_iff)
  from assms(2) a have dw: "dropWhile is_space (ws @ g @ ws2) = g @ ws2"
    by (simp add: g list_all_iff)
  from assms show ?thesis
    unfolding gender_match_at_def tw dw by (simp add: g Let_def)
qed

lemma gender_match_at_SomeD:
  assumes "gender_match_at s = Some g"
  shows "\<exists>ws ws2. s = ws @ g @ ws2 \<and> ws \<noteq> [] \<and> list_all is_space ws
           \<and> g \<in> set gender_codes \<and> list_all is_space ws2"
proof -
  let ?ws = "takeWhile is_space s" and ?rest = "dropWhile is_space s"
  from assms have c: "?ws \<noteq> []" "take 2 ?rest \<in> set gender_codes"
      "list_all is_space (drop 2 ?rest)" and g: "g = take 2 ?rest"
    by (auto simp: gender_match_at_def Let_def split: if_splits)
  have "s = ?ws @ take 2 ?rest @ drop 2 ?rest" by simp
  moreover have "list_all is_space ?ws" by (simp add: list_all_iff) (meson set_takeWhileD)
  ultimately show ?thesis using c g by blast
qed

lemma gender_match_at_blocked:
  assumes "\<not> list_all is_space p" "ws \<noteq> []" "g \<in> set gender_codes"
  shows "gender_match_at (p @ ws @ g @ ws2) = None"
proof -
  from gender_code_shape [OF assms(3)] obtain a where g: "g = [a, a]" and a: "\<not> is_space a"
    by blast
  from assms(1) have ne: "dropWhile is_space p \<noteq> []" by (simp add: list_all_iff)
  then obtain x t where xt: "dropWhile is_space p = x # t" by (cases "dropWhile is_space p") auto
  from assms(1) obtain y where "y \<in> set p" "\<not> is_space y" by (auto simp: list_all_iff)
  then have "dropWhile is_space (p @ ws @ g @ ws2) = dropWhile is_space p @ ws @ g @ ws2"
    by (rule dropWhile_append1)
  then have dw: "dropWhile is_space (p @ ws @ g @ ws2) = x # t @ ws @ g @ ws2"
    by (simp add: xt)
  obtain w ws' where ws: "ws = w # ws'" using assms(2) by (cases ws) auto
  have "drop 2 (x # t @ ws @ g @ ws2) = drop 1 (t @ [w]) @ ws' @ g @ ws2"
    by (cases t) (simp_all add: ws numeral_2_eq_2)
  with a have "\<not> list_all is_space (drop 2 (x # t @ ws @ g @ ws2))" by (simp add: g)
  then show ?thesis unfolding gender_match_at_def dw by (simp add: Let_def)
qed

lemma gender_search_from_found:
  assumes "ws \<noteq> []" "list_all is_space ws" "g \<in> set gender_codes" "list_all is_space ws2"
  shows "gender_search_from i (pre @ ws @ g @ ws2) = Some (i + length (rstrip pre), g)"
proof (induction pre arbitrary: i)
  case Nil
  obtain w ws' where ws: "ws = w # ws'" using assms(1) by (cases ws) auto
  from gender_match_at_code [OF assms] show ?case by (simp add: ws rstrip_Nil)
next
  case (Cons c pre)
  show ?case
  proof (cases "list_all is_space (c # pre)")
    case True
    with assms(2) have "list_all is_space ((c # pre) @ ws)" by simp
    from gender_match_at_code [OF _ this assms(3,4)]
    have "gender_match_at (c # pre @ ws @ g @ ws2) = Some g" by simp
    with True show ?thesis by (simp add: rstrip_Cons)
  next
    case False
    from gender_match_at_blocked [OF False assms(1,3)]
    have "gender_match_at (c # pre @ ws @ g @ ws2) = None" by simp
    with False Cons show ?thesis by (simp add: rstrip_Cons)
  qed
qed

lemma gender_search_from_SomeD:
  "gender_search_from i s = Some (j, g) \<Longrightarrow>
     \<exists>pre ws ws2. s = pre @ ws @ g @ ws2 \<and> ws \<noteq> [] \<and> list_all is_space ws
        \<and> g \<in> set gender_codes \<and> list_all is_space ws2"
proof (induction s arbitrary: i)
  case Nil
  then show ?case by simp
next
  case (Cons c cs)
  show ?case
  proof (cases "gender_match_at (c # cs)")
    case None
    with Cons.prems have "gender_search_from (Suc i) cs = Some (j, g)" by simp
    from Cons.IH [OF this] obtain pre ws ws2 where "cs = pre @ ws @ g @ ws2" "ws \<noteq> []"
      "list_all is_space ws" "g \<in> set gender_codes" "list_all is_space ws2" by blast
    then have "c # cs = (c # pre) @ ws @ g @ ws2 \<and> ws \<noteq> [] \<and> list_all is_space ws
        \<and> g \<in> set gender_codes \<and> list_all is_space ws2" by simp
    then show ?thesis by blast
  next
    case (Some g')
    with Cons.prems have "g' = g" by simp
    with Some gender_match_at_SomeD [of "c # cs" g] obtain ws ws2 where
      "c # cs = [] @ ws @ g @ ws2 \<and> ws \<noteq> [] \<and> list_all is_space ws
        \<and> g \<in> set gender_codes \<and> list_all is_space ws2" by auto
    then show ?thesis by blast
  qed
qed

lemma extract_gender_match:
  assumes "ws \<noteq> []" "list_all is_space ws" "g \<in> set gender_codes" "list_all is_space ws2"
  shows "extract_gender (pre @ ws @ g @ ws2) = (g, strip pre)"
proof -
  have "gender_search (pre @ ws @ g @ ws2) = Some (length (rstrip pre), g)"
    using gender_search_from_found [OF assms, of 0 pre] by (simp add: gender_search_def)
  then have "extract_gender (pre @ ws @ g @ ws2)
      = (g, strip (take (length (rstrip pre)) (pre @ ws @ g @ ws2)))"
    by (simp add: extract_gender_def)
  then show ?thesis by (simp only: rstrip_prefix strip_rstrip)
qed

lemma extract_gender_no_match:
  assumes "\<not> (\<exists>pre ws g ws2. b = pre @ ws @ g @ ws2 \<and> ws \<noteq> [] \<and> list_all is_space ws
             \<and> g \<in> set gender_codes \<and> list_all is_space ws2)"
  shows "extract_gender b = ([], b)"
proof (cases "gender_search b")
  case None
  then show ?thesis by (simp add: extract_gender_def)
next
  case (Some p)
  obtain j g where "p = (j, g)" by (cases p)
  with Some have "gender_search_from 0 b = Some (j, g)" by (simp add: gender_search_def)
  from gender_search_from_SomeD [OF this] assms show ?thesis by blast
qed

lemma extract_gender_codes: "fst (extract_gender b) = [] \<or> fst (extract_gender b) \<in> set gender_codes"
proof (cases "gender_search b")
  case None
  then show ?thesis by (simp add: extract_gender_def)
next
  case (Some p)
  obtain j g where p: "p = (j, g)" by (cases p)
  with Some have "gender_search_from 0 b = Some (j, g)" by (simp add: gender_search_def)
  from gender_search_from_SomeD [OF this] have "g \<in> set gender_codes" by blast
  with Some p show ?thesis by (simp add: extract_gender_def)
qed

lemma extract_gender_untrimmed:
  assumes "lstrip x = x" and "x = pre @ ws @ g @ ws2" and "ws \<noteq> []" "list_all is_space ws"
    and "g \<in> set gender_codes" and "list_all is_space ws2"
  shows "extract_gender (strip x) = (g, strip pre)"
proof -
  from gender_code_shape [OF assms(5)] obtain a where g: "g = [a, a]" and a: "\<not> is_space a"
    by blast
  have "strip x = rstrip x" by (simp add: strip_def assms(1))
  also have "\<dots> = rstrip ((pre @ ws @ g) @ ws2)" by (simp add: assms(2))
  also have "\<dots> = rstrip (pre @ ws @ g)" by (rule rstrip_append_space [OF assms(6)])
  also have "\<dots> = pre @ ws @ g" using a by (intro rstrip_no_trailing) (simp_all add: g)
  finally have "strip x = pre @ ws @ g @ []" by simp
  then show ?thesis
    using extract_gender_match [OF assms(3,4,5), of "[]" pre] by simp
qed

lemma extract_gender_untrimmed_none:
  assumes "\<nexists>pre ws g ws2. x = pre @ ws @ g @ ws2 \<and> ws \<noteq> [] \<and> list_all is_space ws
             \<and> g \<in> set gender_codes \<and> list_all is_space ws2"
  shows "extract_gender (strip x) = ([], strip x)"
proof (rule extract_gender_no_match, rule notI)
  assume "\<exists>pre ws g ws2. strip x = pre @ ws @ g @ ws2 \<and> ws \<noteq> [] \<and> list_all is_space ws
      \<and> g \<in> set gender_codes \<and> list_all is_space ws2"
  then obtain pre ws g ws2 where d: "strip x = pre @ ws @ g @ ws2" and c: "ws \<noteq> []"
    "list_all is_space ws" "g \<in> set gender_codes" "list_all is_space ws2" by blast
  obtain tw where tw: "lstrip x = strip x @ tw" "list_all is_space tw"
    using rstrip_decomp [of "lstrip x"] unfolding strip_def by blast
  have "x = takeWhile is_space x @ lstrip x" by (simp add: lstrip_def)
  then have "x = takeWhile is_space x @ strip x @ tw" by (simp only: tw(1) [symmetric])
  then have "x = (takeWhile is_space x @ pre) @ ws @ g @ (ws2 @ tw)" by (simp add: d)
  moreover have "list_all is_space (ws2 @ tw)" using c(4) tw(2) by simp
  ultimately show False using assms c(1,2,3) by blast
qed

lemma extract_gender_code_alone:
  assumes "g \<in> set gender_codes"
  shows "extract_gender g = ([], g)" and "split_ws g = [g]"
  using assms by (auto simp: eval_defs)

subsection \<open>Splitting the name text\<close>

lemma is_token_split_leading:
  "is_space c \<Longrightarrow> is_token_split (c # cs) toks = is_token_split cs toks"
  by (cases toks) (simp_all add: Let_def)

lemma split_ws_from_is_token_split:
  "list_all (\<lambda>c. \<not> is_space c) w \<Longrightarrow> is_token_split (rev w @ s) (split_ws_from w s)"
proof (induction s arbitrary: w)
  case Nil
  show ?case
  proof (cases "w = []")
    case True
    then show ?thesis by simp
  next
    case False
    with Nil have "\<not> is_space (hd (rev w))"
      by (simp add: hd_rev list_all_iff)
    with False have "dropWhile is_space (rev w) = rev w"
      by (cases "rev w") simp_all
    with False Nil show ?thesis by (simp add: Let_def list_all_iff)
  qed
next
  case (Cons c cs)
  show ?case
  proof (cases "is_space c")
    case sp: True
    from Cons.IH [of "[]"] have ih: "is_token_split cs (split_ws_from [] cs)" by simp
    show ?thesis
    proof (cases "w = []")
      case True
      with sp ih show ?thesis by (simp add: is_token_split_leading)
    next
      case False
      with Cons.prems have "\<not> is_space (hd (rev w))"
        by (simp add: hd_rev list_all_iff)
      with False have d: "dropWhile is_space (rev w @ c # cs) = rev w @ c # cs"
        by (cases "rev w") simp_all
      from sp ih have "is_token_split (c # cs) (split_ws_from [] cs)"
        by (simp add: is_token_split_leading)
      with False sp Cons.prems show ?thesis by (simp add: Let_def d list_all_iff)
    qed
  next
    case False
    with Cons.prems have "list_all (\<lambda>c. \<not> is_space c) (c # w)" by simp
    from Cons.IH [OF this] False show ?thesis by simp
  qed
qed

lemma split_ws_from_skip:
  "list_all is_space ws \<Longrightarrow> split_ws_from [] (ws @ x) = split_ws_from [] x"
  by (induction ws) simp_all

lemma split_ws_from_word:
  "list_all (\<lambda>c. \<not> is_space c) t \<Longrightarrow> split_ws_from w (t @ x) = split_ws_from (rev t @ w) x"
  by (induction t arbitrary: w) simp_all

lemma split_ws_from_end_of_word:
  "w \<noteq> [] \<Longrightarrow> x = [] \<or> is_space (hd x) \<Longrightarrow> split_ws_from w x = rev w # split_ws_from [] x"
  by (cases x) auto

lemma is_token_split_unique:
  "is_token_split src toks \<Longrightarrow> split_ws src = toks"
proof (induction toks arbitrary: src)
  case Nil
  then have "list_all is_space src" by simp
  from split_ws_from_skip [OF this, of "[]"] show ?case by (simp add: split_ws_def)
next
  case (Cons t ts)
  let ?body = "dropWhile is_space src"
  let ?rest = "drop (length t) ?body"
  from Cons.prems have t: "t \<noteq> []" "list_all (\<lambda>c. \<not> is_space c) t" and p: "prefix t ?body"
    and e: "?rest = [] \<or> is_space (hd ?rest)" and r: "is_token_split ?rest ts"
    by (simp_all add: Let_def)
  from p have b: "?body = t @ ?rest" by (auto simp: prefix_def)
  have ws: "list_all is_space (takeWhile is_space src)"
    by (simp add: list_all_iff) (meson set_takeWhileD)
  have "split_ws_from [] src = split_ws_from [] (takeWhile is_space src @ ?body)" by simp
  also have "\<dots> = split_ws_from [] ?body" by (rule split_ws_from_skip [OF ws])
  also have "\<dots> = split_ws_from [] (t @ ?rest)" using b by simp
  also have "\<dots> = split_ws_from (rev t) ?rest"
    using split_ws_from_word [OF t(2), of "[]" ?rest] by simp
  also have "\<dots> = t # split_ws_from [] ?rest"
    using split_ws_from_end_of_word [of "rev t" ?rest] t(1) e by simp
  also have "\<dots> = t # ts" using Cons.IH [OF r] by (simp add: split_ws_def)
  finally show ?case by (simp add: split_ws_def)
qed

lemma split_ws_is_token_split: "is_token_split src (split_ws src)"
  using split_ws_from_is_token_split [of "[]" src] by (simp add: split_ws_def)

lemma join_closed_form:
  "join sep xs = (case xs of [] \<Rightarrow> [] | t # us \<Rightarrow> t @ concat (map (\<lambda>u. sep @ u) us))"
  by (induction sep xs rule: join.induct) simp_all

lemma join_single_spaces:
  "join [32] xs = (case xs of [] \<Rightarrow> [] | t # us \<Rightarrow> t @ concat (map (\<lambda>u. 32 # u) us))"
proof (cases xs)
  case Nil
  then show ?thesis by simp
next
  case (Cons t us)
  have c: "concat (map ((@) [32]) us) = concat (map ((#) 32) us)" by (induction us) simp_all
  show ?thesis by (simp add: join_closed_form Cons c)
qed

subsection \<open>The record of a dated line\<close>

lemma parse_line_dated:
  assumes "date_search line = Some (s, e)"
  shows "parse_line line =
     (let eg = extract_gender (strip (take s line)); toks = split_ws (snd eg)
      in Some [(''last_name'', if 0 < length toks then toks ! 0 else []),
               (''first_name'', if 1 < length toks then toks ! 1 else []),
               (''patronymic'', if 2 < length toks then toks ! 2 else []),
               (''extra'', join [32] (drop 3 toks)),
               (''gender'', fst eg),
               (''date_birth'', take (e - s) (drop s line)),
               (''place'', strip (drop e line)),
               (''raw'', line)])"
  using assms by (simp add: parse_line_def Let_def split: prod.splits)

text \<open>
  Claim C5. On a line with a date, the text before the date, trimmed and with the gender
  code removed (the second component of \<open>extract_gender\<close>), is split on whitespace: the
  tokens are the one list that \<open>is_token_split\<close> relates to that text. Token 0 is
  \<open>last_name\<close>, token 1 \<open>first_name\<close>, token 2 \<open>patronymic\<close>, and \<open>extra\<close> is the
  tokens from index 3 on, the first as it is and each later one after a single space. A
  missing position is the empty string.
\<close>

theorem name_fields_positional:
  assumes "date_search line = Some (s, e)"
  shows "\<exists>r toks. parse_line line = Some r
     \<and> is_token_split (snd (extract_gender (strip (take s line)))) toks
     \<and> (\<forall>toks'. is_token_split (snd (extract_gender (strip (take s line)))) toks'
            \<longrightarrow> toks' = toks)
     \<and> field r ''last_name'' = Some (if 0 < length toks then toks ! 0 else [])
     \<and> field r ''first_name'' = Some (if 1 < length toks then toks ! 1 else [])
     \<and> field r ''patronymic'' = Some (if 2 < length toks then toks ! 2 else [])
     \<and> field r ''extra'' =
           Some (case drop 3 toks of [] \<Rightarrow> [] | t # us \<Rightarrow> t @ concat (map (\<lambda>u. 32 # u) us))"
proof -
  let ?name = "snd (extract_gender (strip (take s line)))"
  let ?toks = "split_ws ?name"
  have u: "\<forall>toks'. is_token_split ?name toks' \<longrightarrow> toks' = ?toks"
    using is_token_split_unique by blast
  have p: "parse_line line = Some
      [(''last_name'', if 0 < length ?toks then ?toks ! 0 else []),
       (''first_name'', if 1 < length ?toks then ?toks ! 1 else []),
       (''patronymic'', if 2 < length ?toks then ?toks ! 2 else []),
       (''extra'', join [32] (drop 3 ?toks)),
       (''gender'', fst (extract_gender (strip (take s line)))),
       (''date_birth'', take (e - s) (drop s line)),
       (''place'', strip (drop e line)),
       (''raw'', line)]" (is "_ = Some ?r")
    by (simp add: parse_line_dated [OF assms] Let_def)
  show ?thesis
  proof (intro exI conjI)
    show "parse_line line = Some ?r" by (rule p)
    show "is_token_split ?name ?toks" by (rule split_ws_is_token_split)
    show "\<forall>toks'. is_token_split ?name toks' \<longrightarrow> toks' = ?toks" by (rule u)
    show "field ?r ''last_name'' = Some (if 0 < length ?toks then ?toks ! 0 else [])"
      by (simp add: field_def)
    show "field ?r ''first_name'' = Some (if 1 < length ?toks then ?toks ! 1 else [])"
      by (simp add: field_def)
    show "field ?r ''patronymic'' = Some (if 2 < length ?toks then ?toks ! 2 else [])"
      by (simp add: field_def)
    show "field ?r ''extra'' =
        Some (case drop 3 ?toks of [] \<Rightarrow> [] | t # us \<Rightarrow> t @ concat (map (\<lambda>u. 32 # u) us))"
      by (simp add: field_def join_single_spaces)
  qed
qed

theorem name_fields_positional_witness:
  "\<exists>r. parse_line (ascii ''Ivanov Petr Sergeevich fon Braun '' @ [1084, 1084] @ ascii '' 12.03.1920 Omsk'') = Some r
     \<and> field r ''last_name'' = Some (ascii ''Ivanov'')
     \<and> field r ''first_name'' = Some (ascii ''Petr'')
     \<and> field r ''patronymic'' = Some (ascii ''Sergeevich'')
     \<and> field r ''extra'' = Some (ascii ''fon Braun'')"
proof -
  let ?line = "ascii ''Ivanov Petr Sergeevich fon Braun '' @ [1084, 1084] @ ascii '' 12.03.1920 Omsk''"
  let ?toks = "[ascii ''Ivanov'', ascii ''Petr'', ascii ''Sergeevich'', ascii ''fon'', ascii ''Braun'']"
  have h: "date_search ?line = Some (36, 46)"
    by (simp add: eval_defs)
  have n: "snd (extract_gender (strip (take 36 ?line))) = ascii ''Ivanov Petr Sergeevich fon Braun''"
    by (simp add: eval_defs)
  have t: "is_token_split (ascii ''Ivanov Petr Sergeevich fon Braun'') ?toks"
    by (simp add: ascii_def is_space_def Let_def)
  from name_fields_positional [OF h] show ?thesis
  proof (elim exE conjE)
    fix r toks
    assume r: "parse_line ?line = Some r"
      and u: "\<forall>toks'. is_token_split (snd (extract_gender (strip (take 36 ?line)))) toks' \<longrightarrow> toks' = toks"
      and f: "field r ''last_name'' = Some (if 0 < length toks then toks ! 0 else [])"
        "field r ''first_name'' = Some (if 1 < length toks then toks ! 1 else [])"
        "field r ''patronymic'' = Some (if 2 < length toks then toks ! 2 else [])"
        "field r ''extra'' =
           Some (case drop 3 toks of [] \<Rightarrow> [] | t # us \<Rightarrow> t @ concat (map (\<lambda>u. 32 # u) us))"
    from u [unfolded n, rule_format, OF t] have toks: "toks = ?toks" by simp
    have "field r ''last_name'' = Some (ascii ''Ivanov'')" using f(1) unfolding toks by simp
    moreover have "field r ''first_name'' = Some (ascii ''Petr'')" using f(2) unfolding toks by simp
    moreover have "field r ''patronymic'' = Some (ascii ''Sergeevich'')"
      using f(3) unfolding toks by simp
    moreover have "field r ''extra'' = Some (ascii ''fon Braun'')"
      using f(4) unfolding toks by (simp add: ascii_def)
    ultimately show ?thesis using r by (intro exI [of _ r]) simp
  qed
qed

text \<open>
  Claim C6, as amended. On a line with a date that does not start with whitespace, as no
  candidate line does: if the text before the date ends with one of the three two-letter
  gender codes, preceded by whitespace and followed only by whitespace, the code is the
  \<open>gender\<close> field and the name text is what precedes that whitespace, trimmed. On every
  line with a date: if the text before the date does not end so, \<open>gender\<close> is empty and
  the name text is the trimmed text before the date; and the \<open>gender\<close> field is empty or
  one of the three codes, each of two letters.
\<close>

theorem gender_extraction:
  assumes "date_search line = Some (s, e)"
  shows "\<exists>r. parse_line line = Some r
     \<and> field r ''gender'' = Some (fst (extract_gender (strip (take s line))))
     \<and> field r ''last_name'' = Some (case split_ws (snd (extract_gender (strip (take s line)))) of
           [] \<Rightarrow> [] | t # ts \<Rightarrow> t)
     \<and> (lstrip line = line \<longrightarrow>
          (\<forall>pre ws g ws2. take s line = pre @ ws @ g @ ws2 \<and> ws \<noteq> [] \<and> list_all is_space ws
              \<and> g \<in> set gender_codes \<and> list_all is_space ws2
             \<longrightarrow> extract_gender (strip (take s line)) = (g, strip pre)))
     \<and> ((\<nexists>pre ws g ws2. take s line = pre @ ws @ g @ ws2 \<and> ws \<noteq> [] \<and> list_all is_space ws
              \<and> g \<in> set gender_codes \<and> list_all is_space ws2)
          \<longrightarrow> extract_gender (strip (take s line)) = ([], strip (take s line)))
     \<and> (fst (extract_gender (strip (take s line))) = []
          \<or> fst (extract_gender (strip (take s line))) \<in> set gender_codes)
     \<and> map length gender_codes = [2, 2, 2]"
proof -
  let ?b = "strip (take s line)"
  let ?toks = "split_ws (snd (extract_gender ?b))"
  have p: "parse_line line = Some
      [(''last_name'', if 0 < length ?toks then ?toks ! 0 else []),
       (''first_name'', if 1 < length ?toks then ?toks ! 1 else []),
       (''patronymic'', if 2 < length ?toks then ?toks ! 2 else []),
       (''extra'', join [32] (drop 3 ?toks)),
       (''gender'', fst (extract_gender ?b)),
       (''date_birth'', take (e - s) (drop s line)),
       (''place'', strip (drop e line)),
       (''raw'', line)]" (is "_ = Some ?r")
    by (simp add: parse_line_dated [OF assms] Let_def)
  show ?thesis
  proof (intro exI conjI impI allI)
    show "parse_line line = Some ?r" by (rule p)
    show "field ?r ''gender'' = Some (fst (extract_gender ?b))" by (simp add: field_def)
    show "field ?r ''last_name'' = Some (case ?toks of [] \<Rightarrow> [] | t # ts \<Rightarrow> t)"
      by (cases ?toks) (simp_all add: field_def)
    show "extract_gender ?b = (g, strip pre)"
      if "lstrip line = line" and "take s line = pre @ ws @ g @ ws2 \<and> ws \<noteq> [] \<and> list_all is_space ws
              \<and> g \<in> set gender_codes \<and> list_all is_space ws2" for pre ws g ws2
      using extract_gender_untrimmed [OF lstrip_take [OF that(1)], of s pre ws g ws2] that(2)
      by simp
    show "extract_gender ?b = ([], ?b)"
      if "\<nexists>pre ws g ws2. take s line = pre @ ws @ g @ ws2 \<and> ws \<noteq> [] \<and> list_all is_space ws
              \<and> g \<in> set gender_codes \<and> list_all is_space ws2"
      using that by (rule extract_gender_untrimmed_none)
    show "fst (extract_gender ?b) = [] \<or> fst (extract_gender ?b) \<in> set gender_codes"
      by (rule extract_gender_codes)
    show "map length gender_codes = [2, 2, 2]" by (simp add: gender_codes_def)
  qed
qed

theorem gender_extraction_witness:
  "(\<exists>r. parse_line [1048, 1074, 1072, 1085, 1086, 1074, 32, 1055, 1105, 1090, 1088, 32, 1057, 1077, 1088, 1075, 1077, 1077, 1074, 1080, 1095, 32, 1084, 1084, 32, 49, 50, 46, 48, 51, 46, 49, 57, 50, 48, 32, 1089, 46, 32, 1055, 1086, 1082, 1088, 1086, 1074, 1082, 1072] = Some r
      \<and> field r ''gender'' = Some [1084, 1084]
      \<and> field r ''last_name'' = Some [1048, 1074, 1072, 1085, 1086, 1074]
      \<and> extract_gender (strip (take 25 [1048, 1074, 1072, 1085, 1086, 1074, 32, 1055, 1105, 1090, 1088, 32, 1057, 1077, 1088, 1075, 1077, 1077, 1074, 1080, 1095, 32, 1084, 1084, 32, 49, 50, 46, 48, 51, 46, 49, 57, 50, 48, 32, 1089, 46, 32, 1055, 1086, 1082, 1088, 1086, 1074, 1082, 1072])) = ([1084, 1084], [1048, 1074, 1072, 1085, 1086, 1074, 32, 1055, 1105, 1090, 1088, 32, 1057, 1077, 1088, 1075, 1077, 1077, 1074, 1080, 1095]))
   \<and> (\<exists>r. parse_line (ascii ''Petrov 05.11.1960'') = Some r
      \<and> field r ''gender'' = Some []
      \<and> field r ''last_name'' = Some (ascii ''Petrov''))"
proof -
  let ?line = "[1048, 1074, 1072, 1085, 1086, 1074, 32, 1055, 1105, 1090, 1088, 32, 1057, 1077, 1088, 1075, 1077, 1077, 1074, 1080, 1095, 32, 1084, 1084, 32, 49, 50, 46, 48, 51, 46, 49, 57, 50, 48, 32, 1089, 46, 32, 1055, 1086, 1082, 1088, 1086, 1074, 1082, 1072]"
  let ?pre = "[1048, 1074, 1072, 1085, 1086, 1074, 32, 1055, 1105, 1090, 1088, 32, 1057, 1077, 1088, 1075, 1077, 1077, 1074, 1080, 1095] :: ustring"
  have h: "date_search ?line = Some (25, 35)"
    by (simp add: eval_defs)
  have l: "lstrip ?line = ?line" by (simp add: lstrip_def is_space_def)
  have b: "take 25 ?line = ?pre @ [32] @ [1084, 1084] @ [32]
      \<and> [32] \<noteq> ([] :: ustring) \<and> list_all is_space [32]
      \<and> [1084, 1084] \<in> set gender_codes \<and> list_all is_space [32]"
    by (simp add: is_space_def gender_codes_def)
  have p: "strip ?pre = ?pre"
    by (simp add: strip_def lstrip_def rstrip_def is_space_def)
  have t: "split_ws ?pre = [[1048, 1074, 1072, 1085, 1086, 1074], [1055, 1105, 1090, 1088],
      [1057, 1077, 1088, 1075, 1077, 1077, 1074, 1080, 1095]]"
    by (simp add: split_ws_def is_space_def)
  from gender_extraction [OF h]
  have first: "\<exists>r. parse_line ?line = Some r
      \<and> field r ''gender'' = Some [1084, 1084]
      \<and> field r ''last_name'' = Some [1048, 1074, 1072, 1085, 1086, 1074]
      \<and> extract_gender (strip (take 25 ?line)) = ([1084, 1084], ?pre)"
  proof (elim exE conjE)
    fix r
    assume r: "parse_line ?line = Some r"
      and gf: "field r ''gender'' = Some (fst (extract_gender (strip (take 25 ?line))))"
      and lf: "field r ''last_name'' = Some (case split_ws (snd (extract_gender (strip (take 25 ?line)))) of
           [] \<Rightarrow> [] | t # ts \<Rightarrow> t)"
      and m: "lstrip ?line = ?line \<longrightarrow>
          (\<forall>pre ws g ws2. take 25 ?line = pre @ ws @ g @ ws2 \<and> ws \<noteq> [] \<and> list_all is_space ws
              \<and> g \<in> set gender_codes \<and> list_all is_space ws2
             \<longrightarrow> extract_gender (strip (take 25 ?line)) = (g, strip pre))"
    from m [rule_format, OF l b]
    have eg: "extract_gender (strip (take 25 ?line)) = ([1084, 1084], ?pre)"
      by (simp only: p)
    from gf have "field r ''gender'' = Some [1084, 1084]" by (simp only: eg fst_conv)
    moreover from lf have "field r ''last_name'' = Some [1048, 1074, 1072, 1085, 1086, 1074]"
      by (simp only: eg snd_conv t list.case)
    ultimately show ?thesis using r eg by (intro exI [of _ r]) simp
  qed
  let ?plain = "ascii ''Petrov 05.11.1960''"
  have h': "date_search ?plain = Some (7, 17)"
    by (simp add: eval_defs)
  have b': "strip (take 7 ?plain) = ascii ''Petrov''"
    by (simp add: ascii_def strip_def lstrip_def rstrip_def is_space_def)
  have n: "\<nexists>pre ws g ws2. take 7 ?plain = pre @ ws @ g @ ws2 \<and> ws \<noteq> [] \<and> list_all is_space ws
              \<and> g \<in> set gender_codes \<and> list_all is_space ws2"
  proof
    assume "\<exists>pre ws g ws2. take 7 ?plain = pre @ ws @ g @ ws2 \<and> ws \<noteq> [] \<and> list_all is_space ws
              \<and> g \<in> set gender_codes \<and> list_all is_space ws2"
    then obtain pre ws g ws2 where d: "take 7 ?plain = pre @ ws @ g @ ws2"
      and g: "g \<in> set gender_codes" by blast
    have "set g \<subseteq> set (take 7 ?plain)" unfolding d by auto
    then have "set g \<subseteq> {80, 101, 116, 114, 111, 118, 32}" by (simp add: ascii_def)
    with g show False by (auto simp: gender_codes_def)
  qed
  have t': "split_ws (ascii ''Petrov'') = [ascii ''Petrov'']"
    by (simp add: ascii_def split_ws_def is_space_def)
  from gender_extraction [OF h']
  have second: "\<exists>r. parse_line ?plain = Some r
      \<and> field r ''gender'' = Some [] \<and> field r ''last_name'' = Some (ascii ''Petrov'')"
  proof (elim exE conjE)
    fix r
    assume r: "parse_line ?plain = Some r"
      and gf: "field r ''gender'' = Some (fst (extract_gender (strip (take 7 ?plain))))"
      and lf: "field r ''last_name'' = Some (case split_ws (snd (extract_gender (strip (take 7 ?plain)))) of
           [] \<Rightarrow> [] | t # ts \<Rightarrow> t)"
      and m: "(\<nexists>pre ws g ws2. take 7 ?plain = pre @ ws @ g @ ws2 \<and> ws \<noteq> [] \<and> list_all is_space ws
              \<and> g \<in> set gender_codes \<and> list_all is_space ws2)
          \<longrightarrow> extract_gender (strip (take 7 ?plain)) = ([], strip (take 7 ?plain))"
    from m [rule_format, OF n]
    have eg: "extract_gender (strip (take 7 ?plain)) = ([], ascii ''Petrov'')"
      by (simp only: b')
    from gf have "field r ''gender'' = Some []" by (simp only: eg fst_conv)
    moreover from lf have "field r ''last_name'' = Some (ascii ''Petrov'')"
      by (simp only: eg snd_conv t' list.case)
    ultimately show ?thesis using r by (intro exI [of _ r]) simp
  qed
  from first second show ?thesis by (rule conjI)
qed

text \<open>
  The claim C6 as stated calls the codes three-letter. Each of the three codes has two
  letters, and so has the code that the line below yields as \<open>gender\<close>.
\<close>

theorem gender_claim_counterexample:
  "parse_line [1057, 1080, 1076, 1086, 1088, 1086, 1074, 1072, 32, 1040, 1085, 1085, 1072, 32, 1076, 1076, 32, 48, 49, 46, 48, 49, 46, 48, 53] =
       Some [(''last_name'', [1057, 1080, 1076, 1086, 1088, 1086, 1074, 1072]),
             (''first_name'', [1040, 1085, 1085, 1072]), (''patronymic'', []),
             (''extra'', []), (''gender'', [1076, 1076]),
             (''date_birth'', [48, 49, 46, 48, 49, 46, 48, 53]), (''place'', []),
             (''raw'', [1057, 1080, 1076, 1086, 1088, 1086, 1074, 1072, 32, 1040, 1085, 1085, 1072, 32, 1076, 1076, 32, 48, 49, 46, 48, 49, 46, 48, 53])]
   \<and> length [1076, 1076 :: uchar] \<noteq> 3
   \<and> map length gender_codes = [2, 2, 2]
   \<and> 3 \<notin> set (map length gender_codes)"
  by (simp add: parse_line_def eval_defs)

text \<open>
  Claim C10. On a line with a date whose text before the date is, once trimmed, just a
  gender code, the code is not taken as gender: \<open>gender\<close> is empty and the code is
  \<open>last_name\<close>.
\<close>

theorem lone_gender_code_is_last_name:
  assumes "date_search line = Some (s, e)" and "strip (take s line) \<in> set gender_codes"
  shows "\<exists>r. parse_line line = Some r \<and> field r ''gender'' = Some []
     \<and> field r ''last_name'' = Some (strip (take s line))"
  using extract_gender_code_alone [OF assms(2)]
  by (simp add: parse_line_dated [OF assms(1)] Let_def field_def)

theorem lone_gender_code_is_last_name_witness:
  "\<exists>r. parse_line [1076, 1076, 32, 48, 49, 46, 48, 49, 46, 48, 53] = Some r
     \<and> field r ''gender'' = Some [] \<and> field r ''last_name'' = Some [1076, 1076]"
proof -
  let ?line = "[1076, 1076, 32, 48, 49, 46, 48, 49, 46, 48, 53] :: ustring"
  have h: "date_search ?line = Some (3, 11)" by (simp add: eval_defs)
  have b: "strip (take 3 ?line) = [1076, 1076]"
    by (simp add: strip_def lstrip_def rstrip_def is_space_def)
  have c: "strip (take 3 ?line) \<in> set gender_codes"
    unfolding b by (simp add: gender_codes_def)
  from lone_gender_code_is_last_name [OF h c] show ?thesis unfolding b .
qed

subsection \<open>Where the code departs from the specification\<close>

text \<open>
  What holds on every line. A line without a date and of length at least three gives the
  record of six entries below. A line that contains a date gives a record whose \<open>raw\<close> is
  the line and whose \<open>date_birth\<close> is the match of the pattern at the leftmost position
  where a date starts: its first eight characters are a date with a two-digit year, and
  up to two further digits follow.
\<close>

lemma date_match_at_bounds:
  assumes "date_match_at s = Some n"
  shows "8 \<le> n \<and> n \<le> 10 \<and> n \<le> length s \<and> list_all is_digit (take (n - 8) (drop 8 s))"
proof -
  let ?y = "takeWhile is_digit (take 2 (drop 8 s))"
  from assms have l: "8 \<le> length s" and n: "n = 8 + length ?y"
    by (auto simp: date_match_at_eq split: if_splits)
  have "length ?y \<le> length (take 2 (drop 8 s))" by (rule length_takeWhile_le)
  then have b: "length ?y \<le> 2" "length ?y \<le> length s - 8" by simp_all
  have "?y = take (length ?y) (take 2 (drop 8 s))" by (rule takeWhile_eq_take)
  with b(1) have "take (length ?y) (drop 8 s) = ?y" by (simp add: min_absorb1)
  moreover have "list_all is_digit ?y" by (simp add: list_all_iff) (meson set_takeWhileD)
  ultimately show ?thesis using l n b by simp
qed

lemma dated_line_record:
  assumes "line = pre @ d @ post" "is_date_text d"
  shows "\<exists>r s e. date_search line = Some (s, e) \<and> parse_line line = Some r
     \<and> field r ''raw'' = Some line
     \<and> field r ''date_birth'' = Some (take (e - s) (drop s line))
     \<and> s \<le> length pre \<and> is_date_text (take 8 (drop s line))
     \<and> 8 \<le> e - s \<and> e - s \<le> 10
     \<and> list_all is_digit (take (e - s - 8) (drop 8 (drop s line)))
     \<and> (\<forall>k<s. \<nexists>d' rest. drop k line = d' @ rest \<and> is_date_text d')"
proof -
  from assms have "date_search line \<noteq> None"
    unfolding date_search_None_iff by blast
  then obtain s e where se: "date_search line = Some (s, e)" by auto
  then have sf: "date_search_from 0 line = Some (s, e)" by (simp only: date_search_def)
  from date_search_from_Some [OF sf]
  have m: "date_match_at (drop s line) = Some (e - s)"
    and left: "\<forall>k<s. date_match_at (drop k line) = None"
    by simp_all
  have "drop (length pre) line = d @ post" by (simp add: assms(1))
  with is_date_text_prefix [OF assms(2), of post]
  have mp: "date_match_at (drop (length pre) line) \<noteq> None" by simp
  have sp: "s \<le> length pre"
  proof (rule ccontr)
    assume "\<not> s \<le> length pre"
    then have "length pre < s" by simp
    from left [rule_format, OF this] mp show False by simp
  qed
  from date_match_at_bounds [OF m]
  have b1: "8 \<le> e - s" and b2: "e - s \<le> 10"
    and b3: "list_all is_digit (take (e - s - 8) (drop 8 (drop s line)))"
    by blast+
  have nl: "\<forall>k<s. \<nexists>d' rest. drop k line = d' @ rest \<and> is_date_text d'"
  proof (intro allI impI notI)
    fix k assume k: "k < s" and "\<exists>d' rest. drop k line = d' @ rest \<and> is_date_text d'"
    then obtain d' rest where dr: "drop k line = d' @ rest" and dt: "is_date_text d'" by blast
    from is_date_text_prefix [OF dt, of rest] have "date_match_at (drop k line) \<noteq> None"
      by (simp add: dr)
    with left [rule_format, OF k] show False by simp
  qed
  have "\<exists>r. parse_line line = Some r
      \<and> field r ''date_birth'' = Some (take (e - s) (drop s line))"
    by (simp add: parse_line_dated [OF se] Let_def field_def)
  then obtain r where r: "parse_line line = Some r"
    and db: "field r ''date_birth'' = Some (take (e - s) (drop s line))"
    by blast
  show ?thesis
  proof (intro exI conjI)
    show "date_search line = Some (s, e)" by (rule se)
    show "parse_line line = Some r" by (rule r)
    show "field r ''raw'' = Some line" by (rule parse_line_raw [OF r])
    show "field r ''date_birth'' = Some (take (e - s) (drop s line))" by (rule db)
    show "s \<le> length pre" by (rule sp)
    show "is_date_text (take 8 (drop s line))" by (rule date_match_at_take8 [OF m])
    show "8 \<le> e - s" by (rule b1)
    show "e - s \<le> 10" by (rule b2)
    show "list_all is_digit (take (e - s - 8) (drop 8 (drop s line)))" by (rule b3)
    show "\<forall>k<s. \<nexists>d' rest. drop k line = d' @ rest \<and> is_date_text d'" by (rule nl)
  qed
qed

lemma degraded_record:
  assumes "date_search line = None" "3 \<le> length line"
  shows "parse_line line = Some [(''raw'', line), (''last_name'', []), (''first_name'', []),
           (''patronymic'', []), (''date_birth'', []), (''place'', [])]"
  using assms by (simp add: parse_line_def)

text \<open>
  Claim C1 says that a record without a date has every field but \<open>raw\<close> empty. On the
  line \<^verbatim>\<open>abc\<close> the record has \<open>raw\<close> and five empty fields, and no entry at all for
  \<open>extra\<close> and \<open>gender\<close>, which the record of a dated line has.
\<close>

theorem degraded_record_lacks_fields:
  "parse_line (ascii ''abc'') =
     Some [(''raw'', ascii ''abc''), (''last_name'', []), (''first_name'', []),
           (''patronymic'', []), (''date_birth'', []), (''place'', [])]
   \<and> field (the (parse_line (ascii ''abc''))) ''raw'' = Some (ascii ''abc'')
   \<and> field (the (parse_line (ascii ''abc''))) ''extra'' = None
   \<and> field (the (parse_line (ascii ''abc''))) ''gender'' = None"
  by (simp add: parse_line_def eval_defs)

text \<open>
  Claim C3 says that \<open>date_birth\<close> is the first date substring of the line. The line
  below contains the date \<^verbatim>\<open>05.11.19\<close>, and \<open>date_birth\<close> is \<^verbatim>\<open>05.11.196\<close>: the
  pattern takes a year of three digits whole.
\<close>

theorem three_digit_year_taken_whole:
  "ascii ''Petrov 05.11.196 Omsk'' = ascii ''Petrov '' @ ascii ''05.11.19'' @ ascii ''6 Omsk''
   \<and> is_date_text (ascii ''05.11.19'')
   \<and> parse_line (ascii ''Petrov 05.11.196 Omsk'') =
       Some [(''last_name'', ascii ''Petrov''), (''first_name'', []), (''patronymic'', []),
             (''extra'', []), (''gender'', []), (''date_birth'', ascii ''05.11.196''),
             (''place'', ascii ''Omsk''), (''raw'', ascii ''Petrov 05.11.196 Omsk'')]
   \<and> ascii ''05.11.196'' \<noteq> ascii ''05.11.19''"
  by (simp add: parse_line_def is_date_text_def eval_defs)

text \<open>
  Claim C4 says that \<open>date_birth\<close> is empty or a date with a year of two or four
  digits. On the line \<^verbatim>\<open>12.03.192\<close> it is the nine characters of the line, a year of
  three digits.
\<close>

theorem date_birth_three_digit_year:
  "field (the (parse_line (ascii ''12.03.192''))) ''date_birth'' = Some (ascii ''12.03.192'')
   \<and> ascii ''12.03.192'' \<noteq> []
   \<and> \<not> is_date_text (ascii ''12.03.192'')
   \<and> length (ascii ''12.03.192'') = 9"
  by (simp add: parse_line_def is_date_text_def eval_defs)

section \<open>Properties of the segmenter\<close>

subsection \<open>Substrings and splitting at the marker\<close>

lemma contains_iff: "contains sub s \<longleftrightarrow> (\<exists>a b. s = a @ sub @ b)"
proof (induction s)
  case Nil
  then show ?case by auto
next
  case (Cons c cs)
  show ?case
  proof
    assume "contains sub (c # cs)"
    then consider "prefix sub (c # cs)" | "contains sub cs" by auto
    then show "\<exists>a b. c # cs = a @ sub @ b"
    proof cases
      case 1
      then obtain b where "c # cs = sub @ b" by (auto simp: prefix_def)
      then have "c # cs = [] @ sub @ b" by simp
      then show ?thesis by blast
    next
      case 2
      with Cons obtain a b where "cs = a @ sub @ b" by blast
      then have "c # cs = (c # a) @ sub @ b" by simp
      then show ?thesis by blast
    qed
  next
    assume "\<exists>a b. c # cs = a @ sub @ b"
    then obtain a b where e: "c # cs = a @ sub @ b" by blast
    show "contains sub (c # cs)"
    proof (cases a)
      case Nil
      with e have "prefix sub (c # cs)" by (simp add: prefix_def)
      then show ?thesis by simp
    next
      case (Cons x a')
      with e have "cs = a' @ sub @ b" by simp
      with Cons.IH show ?thesis by auto
    qed
  qed
qed

lemma split_from_absent:
  "\<not> contains sep s \<Longrightarrow> split_from sep acc s = [rev acc @ s]"
proof (induction s arbitrary: acc)
  case Nil
  then show ?case by (subst split_from.simps) simp
next
  case (Cons c cs)
  from Cons.prems have np: "\<not> prefix sep (c # cs)" and nc: "\<not> contains sep cs" by auto
  from np have "split_from sep acc (c # cs) = split_from sep (c # acc) cs"
    by (subst split_from.simps) simp
  with Cons.IH [OF nc] show ?case by simp
qed

lemma prefix_cut:
  assumes "prefix sep (p @ sep @ rest)" "p \<noteq> []"
  shows "prefix sep (p @ butlast sep)"
proof (cases "sep = []")
  case True
  then show ?thesis by simp
next
  case False
  then have s: "sep = butlast sep @ [last sep]" by simp
  have "p @ sep @ rest = (p @ butlast sep) @ (last sep # rest)"
    by (subst s) simp
  with assms(1) have "prefix sep ((p @ butlast sep) @ (last sep # rest))" by simp
  then consider "prefix sep (p @ butlast sep)"
    | us where "sep = (p @ butlast sep) @ us" unfolding prefix_append by blast
  then show ?thesis
  proof cases
    case 1
    then show ?thesis .
  next
    case 2
    then have l: "length sep = length p + length (butlast sep) + length us"
      by (metis length_append)
    have b: "length (butlast sep) = length sep - 1" by simp
    from False have s1: "1 \<le> length sep" by (cases sep) simp_all
    from assms(2) have p1: "1 \<le> length p" by (cases p) simp_all
    from l b s1 p1 have "length us = 0" by linarith
    with 2 show ?thesis by simp
  qed
qed

lemma split_from_first:
  assumes "sep \<noteq> []"
  shows "\<not> contains sep (pre @ butlast sep) \<Longrightarrow>
     split_from sep acc (pre @ sep @ rest) = (rev acc @ pre) # split_from sep [] rest"
proof (induction pre arbitrary: acc)
  case Nil
  from assms show ?case by (subst split_from.simps) simp
next
  case (Cons c pre)
  from Cons.prems have np: "\<not> prefix sep ((c # pre) @ butlast sep)"
    and nc: "\<not> contains sep (pre @ butlast sep)" by auto
  from np prefix_cut [of sep "c # pre" rest] have "\<not> prefix sep (c # pre @ sep @ rest)" by auto
  then have "split_from sep acc ((c # pre) @ sep @ rest) = split_from sep (c # acc) (pre @ sep @ rest)"
    by (subst split_from.simps) simp
  with Cons.IH [OF nc] show ?case by simp
qed

lemma split_on_absent: "\<not> contains sep s \<Longrightarrow> split_on sep s = [s]"
  by (simp add: split_on_def split_from_absent)

lemma split_on_first:
  "sep \<noteq> [] \<Longrightarrow> \<not> contains sep (pre @ butlast sep) \<Longrightarrow>
     split_on sep (pre @ sep @ rest) = pre # split_on sep rest"
  by (simp add: split_on_def split_from_first)

subsection \<open>The loop over the lines of a block\<close>

lemma scan_lines_eq:
  "scan_lines ls records =
     records @ map parse_line
       (takeWhile (\<lambda>l. \<not> is_terminator l) (filter (\<lambda>l. l \<noteq> []) (map strip ls)))"
  by (induction ls arbitrary: records) (simp_all add: Let_def)

lemma is_terminator_iff:
  "is_terminator line \<longleftrightarrow>
     (\<exists>t a b. t \<in> set [ascii ''alexalex1804'', ascii ''##'', ascii ''VGD.ru''] \<and> line = a @ t @ b)"
  unfolding is_terminator_def contains_iff by auto

lemma scan_lines_cut:
  assumes "is_terminator (strip l)"
  shows "scan_lines (before @ l # after) records = scan_lines before records"
proof -
  from assms have "strip l \<noteq> []"
    by (auto simp: is_terminator_def ascii_def)
  with assms show ?thesis
    by (simp add: scan_lines_eq takeWhile_tail)
qed

subsection \<open>Trimming a block before splitting it into lines\<close>

text \<open>
  The code trims a block before it splits it into lines. The trimmed non-empty lines are
  the same with and without that step.
\<close>

lemma lstrip_all_space: "list_all is_space xs \<Longrightarrow> lstrip xs = []"
  by (simp add: lstrip_def list_all_iff)

lemma strip_alt: "strip xs = lstrip (rstrip xs)"
  by (simp add: strip_def lstrip_rstrip)

lemma strip_all_space: "list_all is_space xs \<Longrightarrow> strip xs = []"
  by (simp add: strip_def lstrip_all_space rstrip_Nil)

lemma strip_leading: "list_all is_space ws \<Longrightarrow> strip (ws @ xs) = strip xs"
  by (simp add: strip_def lstrip_def list_all_iff)

lemma strip_trailing: "list_all is_space ws \<Longrightarrow> strip (xs @ ws) = strip xs"
  by (simp add: strip_alt rstrip_append_space)

lemma splitlines_from_acc:
  "s \<noteq> [] \<Longrightarrow> splitlines_from acc s =
     (rev acc @ hd (splitlines_from [] s)) # tl (splitlines_from [] s)"
proof (induction s arbitrary: acc rule: induct_list012)
  case 1
  then show ?case by simp
next
  case (2 c)
  then show ?case by simp
next
  case (3 c d cs)
  have ne: "d # cs \<noteq> []" by simp
  show ?case
    using "3.IH"(2) [OF ne, of "c # acc"] "3.IH"(2) [OF ne, of "[c]"] by simp
qed

lemma trimmed_lines_acc:
  assumes "list_all is_space acc"
  shows "filter (\<lambda>l. l \<noteq> []) (map strip (splitlines_from acc s))
       = filter (\<lambda>l. l \<noteq> []) (map strip (splitlines_from [] s))"
proof (cases "s = []")
  case True
  with assms show ?thesis by (simp add: strip_all_space)
next
  case False
  from assms have a: "list_all is_space (rev acc)" by (simp add: list_all_iff)
  obtain x xs where l: "splitlines_from [] s = x # xs"
    using splitlines_from_acc [OF False, of "[]"] by simp
  from splitlines_from_acc [OF False, of acc] have e: "splitlines_from acc s = (rev acc @ x) # xs"
    by (simp add: l)
  show ?thesis unfolding e l by (simp add: strip_leading [OF a])
qed

lemma trimmed_lines_leading:
  assumes "is_space w"
  shows "filter (\<lambda>l. l \<noteq> []) (map strip (splitlines_from [] (w # s)))
       = filter (\<lambda>l. l \<noteq> []) (map strip (splitlines_from [] s))"
proof (cases s)
  case Nil
  with assms show ?thesis by (simp add: strip_all_space strip_def lstrip_def rstrip_def)
next
  case (Cons d cs)
  have lf: "is_linebreak 10" by (simp add: is_linebreak_def)
  consider "w = 13 \<and> d = 10" | "\<not> (w = 13 \<and> d = 10)" "is_linebreak w"
    | "\<not> (w = 13 \<and> d = 10)" "\<not> is_linebreak w" by blast
  then show ?thesis
  proof cases
    case 1
    then show ?thesis
      unfolding Cons using lf by (cases cs) (simp_all add: strip_def lstrip_def rstrip_def)
  next
    case 2
    then show ?thesis unfolding Cons by (auto simp: strip_def lstrip_def rstrip_def)
  next
    case 3
    then have "splitlines_from [] (w # d # cs) = splitlines_from [w] (d # cs)" by auto
    moreover from assms have "list_all is_space [w]" by simp
    ultimately show ?thesis unfolding Cons by (simp only: trimmed_lines_acc)
  qed
qed

lemma trimmed_lines_lstrip:
  "filter (\<lambda>l. l \<noteq> []) (map strip (splitlines_from [] (lstrip s)))
     = filter (\<lambda>l. l \<noteq> []) (map strip (splitlines_from [] s))"
proof (induction s)
  case Nil
  then show ?case by (simp add: lstrip_def)
next
  case (Cons c s)
  show ?case
  proof (cases "is_space c")
    case True
    then have "lstrip (c # s) = lstrip s" by (simp add: lstrip_def)
    with Cons trimmed_lines_leading [OF True, of s] show ?thesis by simp
  next
    case False
    then show ?thesis by (simp add: lstrip_def)
  qed
qed

lemma strip_Nil: "strip [] = []"
  by (simp add: strip_def lstrip_def rstrip_def)

lemma trailing_nil:
  assumes "is_space w"
  shows "filter (\<lambda>l. l \<noteq> []) (map strip (splitlines_from acc [w]))
       = filter (\<lambda>l. l \<noteq> []) (map strip (splitlines_from acc []))"
proof -
  from assms have t: "strip (rev acc @ [w]) = strip (rev acc)"
    by (simp add: strip_trailing)
  from assms have e: "strip [w] = []" by (simp add: strip_all_space)
  show ?thesis
  proof (cases "acc = []")
    case True
    then show ?thesis by (simp add: e strip_Nil)
  next
    case False
    then show ?thesis by (simp add: t)
  qed
qed

lemma trailing_one:
  assumes "is_space w"
  shows "filter (\<lambda>l. l \<noteq> []) (map strip (splitlines_from acc [c, w]))
       = filter (\<lambda>l. l \<noteq> []) (map strip (splitlines_from acc [c]))"
proof -
  from assms have t: "strip (rev acc @ [c, w]) = strip (rev acc @ [c])"
    using strip_trailing [of "[w]" "rev acc @ [c]"] by simp
  from assms have e: "strip [w] = []" by (simp add: strip_all_space)
  have cr: "is_linebreak 13" by (simp add: is_linebreak_def)
  consider "c = 13 \<and> w = 10" | "\<not> (c = 13 \<and> w = 10)" "is_linebreak c"
    | "\<not> (c = 13 \<and> w = 10)" "\<not> is_linebreak c" by blast
  then show ?thesis
  proof cases
    case 1
    then show ?thesis using cr by simp
  next
    case 2
    then have "splitlines_from acc [c, w] = rev acc # splitlines_from [] [w]" by auto
    with 2 show ?thesis by (simp add: e strip_Nil)
  next
    case 3
    then have "splitlines_from acc [c, w] = splitlines_from (c # acc) [w]" by auto
    with 3 show ?thesis by (simp add: t)
  qed
qed


lemma trimmed_lines_trailing:
  assumes "is_space w"
  shows "filter (\<lambda>l. l \<noteq> []) (map strip (splitlines_from acc (s @ [w])))
       = filter (\<lambda>l. l \<noteq> []) (map strip (splitlines_from acc s))"
proof (induction s arbitrary: acc rule: induct_list012)
  case 1
  show ?case using trailing_nil [OF assms] by simp
next
  case (2 c)
  show ?case using trailing_one [OF assms] by simp
next
  case (3 c d cs)
  have a: "(c # d # cs) @ [w] = c # d # (cs @ [w])" by simp
  have b: "d # (cs @ [w]) = (d # cs) @ [w]" by simp
  show ?case
    unfolding a splitlines_from.simps
    by (simp only: b "3.IH" if_distrib [of "\<lambda>xs. filter (\<lambda>l. l \<noteq> []) (map strip xs)"]
          list.map filter.simps)
qed

lemma trimmed_lines_trailing_run:
  "list_all is_space ws \<Longrightarrow>
     filter (\<lambda>l. l \<noteq> []) (map strip (splitlines_from acc (s @ ws)))
       = filter (\<lambda>l. l \<noteq> []) (map strip (splitlines_from acc s))"
proof (induction ws arbitrary: s)
  case Nil
  then show ?case by simp
next
  case (Cons w ws)
  from Cons.prems have w: "is_space w" and ws: "list_all is_space ws" by simp_all
  have "filter (\<lambda>l. l \<noteq> []) (map strip (splitlines_from acc (s @ w # ws)))
      = filter (\<lambda>l. l \<noteq> []) (map strip (splitlines_from acc ((s @ [w]) @ ws)))" by simp
  also have "\<dots> = filter (\<lambda>l. l \<noteq> []) (map strip (splitlines_from acc (s @ [w])))"
    by (rule Cons.IH [OF ws])
  also have "\<dots> = filter (\<lambda>l. l \<noteq> []) (map strip (splitlines_from acc s))"
    by (rule trimmed_lines_trailing [OF w])
  finally show ?case .
qed

lemma trimmed_lines_strip:
  "filter (\<lambda>l. l \<noteq> []) (map strip (splitlines (strip s)))
     = filter (\<lambda>l. l \<noteq> []) (map strip (splitlines s))"
proof -
  obtain ws where d: "lstrip s = strip s @ ws" and ws: "list_all is_space ws"
    using rstrip_decomp [of "lstrip s"] unfolding strip_def by blast
  have c: "splitlines_from [] (lstrip s) = splitlines_from [] (strip s @ ws)"
    using arg_cong [OF d, of "splitlines_from []"] .
  have "filter (\<lambda>l. l \<noteq> []) (map strip (splitlines_from [] (strip s)))
      = filter (\<lambda>l. l \<noteq> []) (map strip (splitlines_from [] (strip s @ ws)))"
    by (simp only: trimmed_lines_trailing_run [OF ws])
  also have "\<dots> = filter (\<lambda>l. l \<noteq> []) (map strip (splitlines_from [] (lstrip s)))"
    by (simp only: c)
  also have "\<dots> = filter (\<lambda>l. l \<noteq> []) (map strip (splitlines_from [] s))"
    by (rule trimmed_lines_lstrip)
  finally show ?thesis by (simp only: splitlines_def)
qed

lemma block_lines_strip: "block_lines (strip part) = block_lines part"
  by (simp add: block_lines_def trimmed_lines_strip)

subsection \<open>The records of a document\<close>

lemma scan_parts_eq:
  "scan_parts ps records = records @ concat (map (\<lambda>p. map parse_line (block_lines p)) ps)"
proof (induction ps arbitrary: records)
  case Nil
  then show ?case by simp
next
  case (Cons part ps)
  have "scan_lines (splitlines (strip part)) records
      = records @ map parse_line (block_lines (strip part))"
    by (simp add: scan_lines_eq block_lines_def)
  then have "scan_lines (splitlines (strip part)) records = records @ map parse_line (block_lines part)"
    by (simp only: block_lines_strip)
  with Cons show ?case by simp
qed

lemma parse_line_not_empty_dict: "parse_line l \<noteq> Some []"
  by (simp add: parse_line_def Let_def split: option.splits prod.splits)

lemma truthy_records:
  "map the (filter truthy (map parse_line ls)) = List.map_filter parse_line ls"
proof (induction ls)
  case Nil
  then show ?case by simp
next
  case (Cons l ls)
  show ?case
  proof (cases "parse_line l")
    case None
    with Cons show ?thesis by simp
  next
    case (Some r)
    with parse_line_not_empty_dict [of l] have "r \<noteq> []" by auto
    with Some Cons show ?thesis by simp
  qed
qed

lemma parse_records_eq:
  "parse_records get_text html = List.map_filter parse_line (segment (get_text html))"
proof -
  have "scan_parts ps [] = map parse_line (concat (map block_lines ps))" for ps
    by (simp add: scan_parts_eq map_concat comp_def)
  then show ?thesis
    by (simp add: parse_records_def segment_def Let_def truthy_records)
qed

lemma marker_not_empty: "marker \<noteq> []"
  by (simp add: marker_def ascii_def)

text \<open>
  Claim C2. The records of a document are those of its candidate lines, in order, where
  the candidate lines are the ones of \<open>segment\<close>: the text before the first marker is
  discarded, every block after a marker gives its trimmed non-empty lines up to, and
  without, the first terminator line, and the blocks are concatenated. Without a marker
  there are no candidate lines and the result is empty. \<open>parse_records\<close> is total.
\<close>

theorem parse_records_segments:
  "parse_records get_text html = List.map_filter parse_line (segment (get_text html))
   \<and> (\<not> contains marker (get_text html) \<longrightarrow>
        segment (get_text html) = [] \<and> parse_records get_text html = [])
   \<and> (get_text html = pre @ marker @ rest \<and> \<not> contains marker (pre @ butlast marker) \<longrightarrow>
        segment (get_text html) = concat (map block_lines (split_on marker rest)))"
proof -
  have a: "parse_records get_text html = List.map_filter parse_line (segment (get_text html))"
    by (rule parse_records_eq)
  have b: "segment (get_text html) = []" if "\<not> contains marker (get_text html)"
    using that by (simp add: segment_def split_on_absent)
  have c: "segment (get_text html) = concat (map block_lines (split_on marker rest))"
    if "get_text html = pre @ marker @ rest" "\<not> contains marker (pre @ butlast marker)"
    using that by (simp add: segment_def split_on_first [OF marker_not_empty])
  from a b c show ?thesis by simp
qed

theorem parse_records_segments_witness:
  "parse_records (\<lambda>h. h)
     (ascii ''junk'' @ marker @ [10] @ ascii ''Ivanov Petr 01.02.1903 Omsk'' @ [10]
        @ ascii ''  Petrova Anna 03.04.05'' @ [13, 10, 10] @ ascii ''see VGD.ru'' @ [10]
        @ ascii ''Sidorov 05.06.1907'')
     = [[(''last_name'', ascii ''Ivanov''), (''first_name'', ascii ''Petr''), (''patronymic'', []),
         (''extra'', []), (''gender'', []), (''date_birth'', ascii ''01.02.1903''),
         (''place'', ascii ''Omsk''), (''raw'', ascii ''Ivanov Petr 01.02.1903 Omsk'')],
        [(''last_name'', ascii ''Petrova''), (''first_name'', ascii ''Anna''), (''patronymic'', []),
         (''extra'', []), (''gender'', []), (''date_birth'', ascii ''03.04.05''),
         (''place'', []), (''raw'', ascii ''Petrova Anna 03.04.05'')]]
   \<and> parse_records (\<lambda>h. h) (ascii ''no records here'') = []"
proof -
  let ?rest = "[10] @ ascii ''Ivanov Petr 01.02.1903 Omsk'' @ [10]
        @ ascii ''  Petrova Anna 03.04.05'' @ [13, 10, 10] @ ascii ''see VGD.ru'' @ [10]
        @ ascii ''Sidorov 05.06.1907''"
  let ?doc = "ascii ''junk'' @ marker @ ?rest"
  have n: "\<not> contains marker (ascii ''junk'' @ butlast marker)"
    by (simp add: marker_def ascii_def)
  have nr: "\<not> contains marker ?rest"
    by (simp add: marker_def ascii_def)
  have bl: "block_lines ?rest = [ascii ''Ivanov Petr 01.02.1903 Omsk'', ascii ''Petrova Anna 03.04.05'']"
    by (simp add: block_lines_def splitlines_def ascii_def is_linebreak_def is_terminator_def
        strip_def lstrip_def rstrip_def is_space_def)
  have p: "List.map_filter parse_line
       [ascii ''Ivanov Petr 01.02.1903 Omsk'', ascii ''Petrova Anna 03.04.05'']
     = [[(''last_name'', ascii ''Ivanov''), (''first_name'', ascii ''Petr''), (''patronymic'', []),
         (''extra'', []), (''gender'', []), (''date_birth'', ascii ''01.02.1903''),
         (''place'', ascii ''Omsk''), (''raw'', ascii ''Ivanov Petr 01.02.1903 Omsk'')],
        [(''last_name'', ascii ''Petrova''), (''first_name'', ascii ''Anna''), (''patronymic'', []),
         (''extra'', []), (''gender'', []), (''date_birth'', ascii ''03.04.05''),
         (''place'', []), (''raw'', ascii ''Petrova Anna 03.04.05'')]]"
    by (simp add: parse_line_def eval_defs)
  from parse_records_segments [of "\<lambda>h. h" ?doc "ascii ''junk''" ?rest] n
  have "segment ?doc = concat (map block_lines (split_on marker ?rest))"
    and "parse_records (\<lambda>h. h) ?doc = List.map_filter parse_line (segment ?doc)"
    by blast+
  then have first: "parse_records (\<lambda>h. h) ?doc = List.map_filter parse_line
       [ascii ''Ivanov Petr 01.02.1903 Omsk'', ascii ''Petrova Anna 03.04.05'']"
    by (simp only: split_on_absent [OF nr] bl list.map concat.simps append_Nil2)
  have na: "\<not> contains marker (ascii ''no records here'')"
    by (simp add: marker_def ascii_def)
  with parse_records_segments [of "\<lambda>h. h" "ascii ''no records here''"]
  have "parse_records (\<lambda>h. h) (ascii ''no records here'') = []" by blast
  with first p show ?thesis by (simp only: append_assoc)
qed

text \<open>
  Claim C9. A line is a terminator when one of the three literals occurs anywhere in it,
  and a terminator line ends the loop over its block: the lines after it, and the line
  itself, add no record.
\<close>

theorem terminator_by_containment:
  "(is_terminator line \<longleftrightarrow>
      (\<exists>t a b. t \<in> set [ascii ''alexalex1804'', ascii ''##'', ascii ''VGD.ru''] \<and> line = a @ t @ b))
   \<and> (t \<in> set [ascii ''alexalex1804'', ascii ''##'', ascii ''VGD.ru''] \<and> strip l = a @ t @ b \<longrightarrow>
        scan_lines (before @ l # after) records = scan_lines before records)"
proof -
  have "scan_lines (before @ l # after) records = scan_lines before records"
    if "t \<in> set [ascii ''alexalex1804'', ascii ''##'', ascii ''VGD.ru'']" "strip l = a @ t @ b"
  proof (rule scan_lines_cut)
    from that show "is_terminator (strip l)" unfolding is_terminator_iff by blast
  qed
  with is_terminator_iff [of line] show ?thesis by blast
qed

theorem terminator_by_containment_witness:
  "is_terminator (ascii ''see VGD.ru now'')
   \<and> scan_lines ([ascii ''Petrova Anna 03.04.05''] @ ascii '' see VGD.ru now '' # [ascii ''Sidorov 05.06.1907'']) []
     = scan_lines [ascii ''Petrova Anna 03.04.05''] []
   \<and> scan_lines [ascii ''Petrova Anna 03.04.05''] [] = [parse_line (ascii ''Petrova Anna 03.04.05'')]"
proof -
  have t: "ascii ''VGD.ru'' \<in> set [ascii ''alexalex1804'', ascii ''##'', ascii ''VGD.ru'']" by simp
  have d: "ascii ''see VGD.ru now'' = ascii ''see '' @ ascii ''VGD.ru'' @ ascii '' now''"
    by (simp add: ascii_def)
  have l: "strip (ascii '' see VGD.ru now '') = ascii ''see '' @ ascii ''VGD.ru'' @ ascii '' now''"
    by (simp add: ascii_def strip_def lstrip_def rstrip_def is_space_def)
  from terminator_by_containment [of "ascii ''see VGD.ru now''" "ascii ''VGD.ru''"
      "ascii '' see VGD.ru now ''" "ascii ''see ''" "ascii '' now''"
      "[ascii ''Petrova Anna 03.04.05'']" "[ascii ''Sidorov 05.06.1907'']" "[]"] t d l
  have "is_terminator (ascii ''see VGD.ru now'')"
    and "scan_lines ([ascii ''Petrova Anna 03.04.05''] @ ascii '' see VGD.ru now '' # [ascii ''Sidorov 05.06.1907'']) []
     = scan_lines [ascii ''Petrova Anna 03.04.05''] []"
    by blast+
  moreover have "scan_lines [ascii ''Petrova Anna 03.04.05''] [] = [parse_line (ascii ''Petrova Anna 03.04.05'')]"
    by (simp add: ascii_def strip_def lstrip_def rstrip_def is_space_def is_terminator_def Let_def)
  ultimately show ?thesis by blast
qed

end
